theory Spec2Isabelle
  imports Complex_Main "HOL-Library.Word"
begin

section \<open>Strings of the preprocessing script\<close>

text \<open>
  The script reads every file with the latin-1 encoding and decodes every payload with
  latin-1, so each character it handles is one of the 256 code points below U+0100.
  A Python \<open>str\<close> is therefore modelled as a \<open>string\<close>, a list of 8-bit characters.
\<close>

definition newline :: char where
  "newline = CHR 0x0A"

text \<open>
  \<open>str.strip()\<close> without an argument removes the characters for which \<open>str.isspace\<close>
  holds. Below U+0100 these are tab, line feed, vertical tab, form feed, carriage return,
  the four separators U+001C..U+001F, the space, U+0085 and U+00A0.
\<close>

definition isspace :: "char \<Rightarrow> bool" where
  "isspace c \<longleftrightarrow> c \<in> set [CHR 0x09, CHR 0x0A, CHR 0x0B, CHR 0x0C, CHR 0x0D,
     CHR 0x1C, CHR 0x1D, CHR 0x1E, CHR 0x1F, CHR 0x20, CHR 0x85, CHR 0xA0]"

definition lstrip :: "string \<Rightarrow> string" where
  "lstrip s = dropWhile isspace s"

definition rstrip :: "string \<Rightarrow> string" where
  "rstrip s = rev (dropWhile isspace (rev s))"

definition strip :: "string \<Rightarrow> string" where
  "strip s = rstrip (lstrip s)"

text \<open>\<open>text.split("\n")\<close>: the pieces between line feeds; never the empty list.\<close>

fun split_nl :: "string \<Rightarrow> string list" where
  "split_nl [] = [[]]"
| "split_nl (c # cs) =
     (if c = newline then [] # split_nl cs
      else (case split_nl cs of
              [] \<Rightarrow> [[c]]
            | l # ls \<Rightarrow> (c # l) # ls))"

text \<open>\<open>"\n".join(lines)\<close>.\<close>

fun join_nl :: "string list \<Rightarrow> string" where
  "join_nl [] = []"
| "join_nl [l] = l"
| "join_nl (l # ls) = l @ newline # join_nl ls"

subsection \<open>The regular expressions\<close>

text \<open>
  Case folding of the \<open>re\<close> module under \<open>re.IGNORECASE\<close>, on the code points below
  U+0100: the letters A..Z and the letters U+00C0..U+00DE other than the multiplication
  sign U+00D7 are moved 32 places up; every other character is its own lower case.
\<close>

definition lower :: "char \<Rightarrow> char" where
  "lower c =
     (let n = (of_char c :: nat)
      in if (65 \<le> n \<and> n \<le> 90) \<or> (192 \<le> n \<and> n \<le> 222 \<and> n \<noteq> 215)
         then char_of (n + 32) else c)"

definition char_matches :: "bool \<Rightarrow> char \<Rightarrow> char \<Rightarrow> bool" where
  "char_matches ignorecase p c \<longleftrightarrow> (if ignorecase then lower c = lower p else c = p)"

text \<open>The literal \<open>lit\<close> matches at the start of the text.\<close>

fun match_here :: "bool \<Rightarrow> string \<Rightarrow> string \<Rightarrow> bool" where
  "match_here ignorecase [] cs = True"
| "match_here ignorecase (p # ps) [] = False"
| "match_here ignorecase (p # ps) (c # cs) =
     (char_matches ignorecase p c \<and> match_here ignorecase ps cs)"

text \<open>
  \<open>re.sub(lit + ".*", "", text, flags)\<close> for a literal \<open>lit\<close> that is not empty, as all
  nine patterns of \<open>clean_text\<close> are. The scan goes from left to right. Where the literal
  matches, \<open>.*\<close> takes what follows: with \<open>re.DOTALL\<close> the rest of the text, without it
  the characters up to the next line feed, which stays. The match is replaced by the empty
  string and the scan goes on behind it.
\<close>

function re_sub :: "bool \<Rightarrow> bool \<Rightarrow> string \<Rightarrow> string \<Rightarrow> string" where
  "re_sub dotall ignorecase lit [] = []"
| "re_sub dotall ignorecase lit (c # cs) =
     (if match_here ignorecase lit (c # cs)
      then (if dotall then []
            else re_sub dotall ignorecase lit
                   (dropWhile (\<lambda>x. x \<noteq> newline) (drop (length lit - 1) cs)))
      else c # re_sub dotall ignorecase lit cs)"
  by pat_completeness auto
termination
proof (relation "measure (\<lambda>(dotall, ignorecase, lit, s). length s)")
  fix dotall ignorecase :: bool and lit cs :: string and c :: char
  have "length (dropWhile (\<lambda>x. x \<noteq> newline) (drop (length lit - 1) cs))
          \<le> length (drop (length lit - 1) cs)"
    by (rule length_dropWhile_le)
  then show "((dotall, ignorecase, lit,
                dropWhile (\<lambda>x. x \<noteq> newline) (drop (length lit - 1) cs)),
              (dotall, ignorecase, lit, c # cs))
             \<in> measure (\<lambda>(dotall, ignorecase, lit, s). length s)"
    by simp
qed simp_all

section \<open>Values\<close>

text \<open>
  The Python values that can reach \<open>clean_text\<close> and \<open>anonymize_text\<close>: a \<open>str\<close>,
  \<open>None\<close>, or a number.
\<close>

datatype pyval = VStr string | VNone | VInt int | VFloat real

section \<open>\<open>clean_text\<close>\<close>

text \<open>The last two statements of \<open>clean_text\<close>: dropping blank lines.\<close>

definition drop_blank_lines :: "string \<Rightarrow> string" where
  "drop_blank_lines s = join_nl (filter (\<lambda>line. strip line \<noteq> []) (split_nl s))"

definition clean_str :: "string \<Rightarrow> string" where
  "clean_str t0 =
     (let t1 = re_sub True True ''-----Original Message-----'' t0;
          t2 = re_sub False False ''From:'' t1;
          t3 = re_sub False False ''To:'' t2;
          t4 = re_sub False False ''Sent:'' t3;
          t5 = re_sub False False ''Subject:'' t4;
          t6 = re_sub False False ''>'' t5;
          t7 = re_sub True True ''Sincerely'' t6;
          t8 = re_sub True True ''Best regards'' t7;
          t9 = re_sub True True ''Confidentiality Notice'' t8;
          t10 = drop_blank_lines t9
      in strip t10)"

fun clean_text :: "pyval \<Rightarrow> string" where
  "clean_text (VStr s) = clean_str s"
| "clean_text v = []"

section \<open>Notions used to state the properties\<close>

text \<open>The literal occurs somewhere in the text (folding case when \<open>ignorecase\<close> is set).\<close>

fun occurs :: "bool \<Rightarrow> string \<Rightarrow> string \<Rightarrow> bool" where
  "occurs ignorecase lit [] = match_here ignorecase lit []"
| "occurs ignorecase lit (c # cs) =
     (match_here ignorecase lit (c # cs) \<or> occurs ignorecase lit cs)"

definition all_lines_nonblank :: "string \<Rightarrow> bool" where
  "all_lines_nonblank s \<longleftrightarrow> (\<forall>line \<in> set (split_nl s). strip line \<noteq> [])"

definition stripped :: "string \<Rightarrow> bool" where
  "stripped s \<longleftrightarrow> s = [] \<or> (\<not> isspace (hd s) \<and> \<not> isspace (last s))"

section \<open>Exceptions and the outside world\<close>

text \<open>
  A raised exception, with the text \<open>str(e)\<close> gives for it. \<open>Exception\<close> stands for an
  instance of the class \<open>Exception\<close>, which the two \<open>except Exception\<close> clauses of the
  script catch; \<open>BaseException\<close> for one outside that class (\<open>KeyboardInterrupt\<close>,
  \<open>SystemExit\<close>), which they let through.
\<close>

datatype exn = Exception string | BaseException string

type_synonym bytes = "8 word list"

text \<open>One analyzer result: the entity type and the span \<open>text[start:end]\<close>.\<close>

record recognizer_result =
  entity_type :: string
  span_start :: nat
  span_end :: nat

text \<open>\<open>OperatorConfig(operator_name, params)\<close>.\<close>

datatype operator_config = OperatorConfig string "(string \<times> string) list"

record engine_result =
  result_text :: string

text \<open>
  The two engines of the external library are parameters of the model:
  \<open>analyzer.analyze(text=text, language="en")\<close> and
  \<open>anonymizer.anonymize(text=text, analyzer_results=..., operators=...)\<close>.
  Each either raises or returns.
\<close>

type_synonym analyzer = "pyval \<Rightarrow> exn + recognizer_result list"

type_synonym anonymizer =
  "pyval \<Rightarrow> recognizer_result list \<Rightarrow> (string \<times> operator_config) list \<Rightarrow> exn + engine_result"

datatype engine_call =
  Analyze pyval
| Anonymize pyval "recognizer_result list" "(string \<times> operator_config) list"

record out_row =
  out_sender :: pyval
  out_text :: pyval

text \<open>
  What the script changes outside itself: the lines printed to standard output (one entry
  for each call of \<open>print\<close>, its argument), the calls made to the engines, and the files
  written, each with its rows (columns \<open>sender\<close> and \<open>text\<close>). The progress bars of
  \<open>tqdm\<close> go to standard error and are left out.
\<close>

record world =
  stdout :: "string list"
  engine_calls :: "engine_call list"
  written :: "string \<rightharpoonup> out_row list"

definition print :: "string \<Rightarrow> world \<Rightarrow> world" where
  "print s w = w\<lparr>stdout := stdout w @ [s]\<rparr>"

definition record_call :: "engine_call \<Rightarrow> world \<Rightarrow> world" where
  "record_call c w = w\<lparr>engine_calls := engine_calls w @ [c]\<rparr>"

text \<open>The decimal digits of a number, as an f-string prints it.\<close>

function string_of_nat :: "nat \<Rightarrow> string" where
  "string_of_nat n =
     (if n < 10 then [char_of (48 + n)]
      else string_of_nat (n div 10) @ [char_of (48 + n mod 10)])"
  by pat_completeness auto
termination
  by (relation "measure (\<lambda>n. n)") auto

declare string_of_nat.simps [simp del]

section \<open>\<open>anonymize_text\<close>\<close>

text \<open>Python's truth value of an object, as \<open>not text\<close> tests it.\<close>

fun truthy :: "pyval \<Rightarrow> bool" where
  "truthy (VStr s) = (s \<noteq> [])"
| "truthy VNone = False"
| "truthy (VInt i) = (i \<noteq> 0)"
| "truthy (VFloat x) = (x \<noteq> 0)"

text \<open>The dictionary passed as \<open>operators\<close>.\<close>

definition operators :: "(string \<times> operator_config) list" where
  "operators = [(''DEFAULT'', OperatorConfig ''replace'' [(''new_value'', ''<REDACTED>'')])]"

text \<open>The clause \<open>except Exception as e\<close> of \<open>anonymize_text\<close>.\<close>

fun anonymize_failed :: "exn \<Rightarrow> pyval \<Rightarrow> world \<Rightarrow> (exn + pyval) \<times> world" where
  "anonymize_failed (Exception msg) text w =
     (Inr text, print (''Anonymization failed for a text snippet: '' @ msg) w)"
| "anonymize_failed (BaseException msg) text w = (Inl (BaseException msg), w)"

definition anonymize_text ::
  "pyval \<Rightarrow> analyzer \<Rightarrow> anonymizer \<Rightarrow> world \<Rightarrow> (exn + pyval) \<times> world" where
  "anonymize_text text analyzer anonymizer w =
     (if \<not> truthy text then (Inr (VStr []), w)
      else
        let w1 = record_call (Analyze text) w in
        case analyzer text of
          Inl e \<Rightarrow> anonymize_failed e text w1
        | Inr analyzer_results \<Rightarrow>
            let w2 = record_call (Anonymize text analyzer_results operators) w1 in
            (case anonymizer text analyzer_results operators of
               Inl e \<Rightarrow> anonymize_failed e text w2
             | Inr anonymized_result \<Rightarrow> (Inr (VStr (result_text anonymized_result)), w2)))"

section \<open>\<open>main\<close>\<close>

text \<open>
  What \<open>main\<close> reads of a parsed message: \<open>is_multipart()\<close>; for each part that
  \<open>walk()\<close> yields its \<open>get_content_type()\<close> and \<open>get_payload(decode=True)\<close>, which is
  \<open>None\<close> for a multipart container; the same payload of the message itself; and
  \<open>get("From")\<close>.
\<close>

record part =
  content_type :: string
  payload :: "bytes option"

record message =
  is_multipart :: bool
  walk :: "part list"
  own_payload :: "bytes option"
  header_from :: "string option"

text \<open>
  The file system and the e-mail parser are parameters: the paths \<open>os.walk\<close> yields
  under the mail directory, \<open>open(path, "r", encoding="latin-1").read()\<close> and
  \<open>message_from_string\<close>.
\<close>

record env =
  all_files :: "string list"
  read_file :: "string \<Rightarrow> exn + string"
  message_from_string :: "string \<Rightarrow> exn + message"

record email =
  sender :: pyval
  body :: string

text \<open>
  \<open>payload.decode("latin-1", errors="ignore")\<close>: every byte is the character of the same
  code. On \<open>None\<close> the attribute \<open>decode\<close> is missing and an \<open>AttributeError\<close> is raised.
\<close>

fun decode_latin1 :: "bytes option \<Rightarrow> exn + string" where
  "decode_latin1 None =
     Inl (Exception (CHR 0x27 # ''NoneType'' @ CHR 0x27 # '' object has no attribute ''
                      @ CHR 0x27 # ''decode'' @ [CHR 0x27]))"
| "decode_latin1 (Some bs) = Inr (map (\<lambda>b. char_of (unat b)) bs)"

text \<open>The loop over \<open>message.walk()\<close>, which stops at the first \<open>text/plain\<close> part.\<close>

fun walk_body :: "part list \<Rightarrow> exn + string" where
  "walk_body [] = Inr []"
| "walk_body (p # ps) =
     (if content_type p = ''text/plain'' then decode_latin1 (payload p) else walk_body ps)"

definition get_body :: "message \<Rightarrow> exn + string" where
  "get_body m = (if is_multipart m then walk_body (walk m) else decode_latin1 (own_payload m))"

text \<open>The body of the \<open>try\<close> statement for one file.\<close>

definition parse_file :: "env \<Rightarrow> string \<Rightarrow> exn + email" where
  "parse_file e file_path =
     (case read_file e file_path of
        Inl x \<Rightarrow> Inl x
      | Inr file_content \<Rightarrow>
          (case message_from_string e file_content of
             Inl x \<Rightarrow> Inl x
           | Inr m \<Rightarrow>
               (case get_body m of
                  Inl x \<Rightarrow> Inl x
                | Inr b \<Rightarrow>
                    Inr \<lparr>sender = (case header_from m of None \<Rightarrow> VNone | Some s \<Rightarrow> VStr s),
                         body = b\<rparr>)))"

text \<open>The loop over the files, with its \<open>except Exception: pass\<close>.\<close>

fun parse_emails ::
  "env \<Rightarrow> string list \<Rightarrow> email list \<Rightarrow> world \<Rightarrow> (exn + email list) \<times> world" where
  "parse_emails e [] data w = (Inr data, w)"
| "parse_emails e (file_path # rest) data w =
     (case parse_file e file_path of
        Inr row \<Rightarrow> parse_emails e rest (data @ [row]) w
      | Inl (Exception msg) \<Rightarrow> parse_emails e rest data w
      | Inl (BaseException msg) \<Rightarrow> (Inl (BaseException msg), w))"

text \<open>The list comprehension that fills the column \<open>anonymized_body\<close>.\<close>

fun anonymize_all ::
  "string list \<Rightarrow> analyzer \<Rightarrow> anonymizer \<Rightarrow> world \<Rightarrow> (exn + pyval list) \<times> world" where
  "anonymize_all [] analyzer anonymizer w = (Inr [], w)"
| "anonymize_all (t # ts) analyzer anonymizer w =
     (case anonymize_text (VStr t) analyzer anonymizer w of
        (Inl x, w1) \<Rightarrow> (Inl x, w1)
      | (Inr v, w1) \<Rightarrow>
          (case anonymize_all ts analyzer anonymizer w1 of
             (Inl x, w2) \<Rightarrow> (Inl x, w2)
           | (Inr vs, w2) \<Rightarrow> (Inr (v # vs), w2)))"

text \<open>
  The mask \<open>final_df["text"].str.strip() != ""\<close>. For an element that is not a string
  \<open>.str.strip()\<close> gives a missing value, which differs from \<open>""\<close>.
\<close>

fun text_not_blank :: "pyval \<Rightarrow> bool" where
  "text_not_blank (VStr t) = (strip t \<noteq> [])"
| "text_not_blank v = True"

definition output_filename :: string where
  "output_filename = ''enron_anonymized.parquet''"

text \<open>
  \<open>main\<close>. A table built from an empty list of rows has no columns, so \<open>df["body"]\<close>
  raises a \<open>KeyError\<close> when no file was parsed.
\<close>

definition main :: "env \<Rightarrow> analyzer \<Rightarrow> anonymizer \<Rightarrow> world \<Rightarrow> (exn + unit) \<times> world" where
  "main e analyzer anonymizer w0 =
     (let w1 = print ''Step 1: Loading and parsing raw email files...'' w0 in
      case parse_emails e (all_files e) [] w1 of
        (Inl x, w2) \<Rightarrow> (Inl x, w2)
      | (Inr df, w2) \<Rightarrow>
          let w3 = print (''Successfully loaded and parsed '' @ string_of_nat (length df)
                          @ '' emails.'') w2;
              w4 = print (newline # ''Step 2: Cleaning email body text...'') w3
          in
          if df = [] then (Inl (Exception (CHR 0x27 # ''body'' @ [CHR 0x27])), w4)
          else
            let cleaned_body = map (\<lambda>row. clean_text (VStr (body row))) df;
                w5 = print (newline # ''Step 3: Anonymizing PII (this may take a while)...'') w4
            in
            (case anonymize_all cleaned_body analyzer anonymizer w5 of
               (Inl x, w6) \<Rightarrow> (Inl x, w6)
             | (Inr anonymized_body, w6) \<Rightarrow>
                 let w7 = print (newline # ''Step 4: Saving the final, processed dataset...'') w6;
                     final_df = map (\<lambda>(row, t). \<lparr>out_sender = sender row, out_text = t\<rparr>)
                                  (zip df anonymized_body);
                     final_df = filter (\<lambda>r. text_not_blank (out_text r)) final_df;
                     w8 = w7\<lparr>written := (written w7)(output_filename \<mapsto> final_df)\<rparr>;
                     w9 = print (newline # ''Preprocessing complete!'') w8;
                     w10 = print (''Anonymized dataset with '' @ string_of_nat (length final_df)
                                  @ '' emails saved to: '' @ output_filename) w9
                 in (Inr (), w10)))"

section \<open>The contract of the external anonymizer\<close>

text \<open>
  Modelled from the spec: the anonymizer engine of the external library, which is not
  part of the repository. The spec describes anonymization as "replacing detected
  sensitive text spans with a fixed redaction token". The engine is free in how it
  groups the spans it is given, in whatever order they come: it may put one value in
  place of several spans that touch, overlap or lie close together. What it returns is
  the text with some regions replaced and the rest kept, such that no character of a
  detected span is left outside a region, and the value that stands for a region is the
  one the operator of a span in that region supplies. An operator is looked up under the
  entity type and, when the dictionary has no such key, under \<open>"DEFAULT"\<close>; the operator
  \<open>replace\<close> supplies its parameter \<open>new_value\<close>.
\<close>

definition operator_for :: "(string \<times> operator_config) list \<Rightarrow> string \<Rightarrow> operator_config option" where
  "operator_for ops ty =
     (case map_of ops ty of Some c \<Rightarrow> Some c | None \<Rightarrow> map_of ops ''DEFAULT'')"

fun new_value_of :: "operator_config option \<Rightarrow> string option" where
  "new_value_of (Some (OperatorConfig name params)) =
     (if name = ''replace'' then map_of params ''new_value'' else None)"
| "new_value_of None = None"

definition supplied_value :: "(string \<times> operator_config) list \<Rightarrow> string \<Rightarrow> string" where
  "supplied_value ops ty =
     (case new_value_of (operator_for ops ty) of Some v \<Rightarrow> v | None \<Rightarrow> [])"

text \<open>A region \<open>text[at_start:at_end]\<close> and the value put in its place.\<close>

record replacement =
  at_start :: nat
  at_end :: nat
  new_text :: string

text \<open>
  The regions are in ascending order from position \<open>pos\<close> on, none empty, none reaching
  into the next, all inside the text.
\<close>

fun regions_ok :: "nat \<Rightarrow> string \<Rightarrow> replacement list \<Rightarrow> bool" where
  "regions_ok pos text [] = True"
| "regions_ok pos text (g # gs) =
     (pos \<le> at_start g \<and> at_start g < at_end g \<and> at_end g \<le> length text
      \<and> regions_ok (at_end g) text gs)"

text \<open>
  The text from position \<open>pos\<close> on, with each region replaced by its value and everything
  between the regions kept.
\<close>

fun apply_replacements :: "nat \<Rightarrow> string \<Rightarrow> replacement list \<Rightarrow> string" where
  "apply_replacements pos text [] = drop pos text"
| "apply_replacements pos text (g # gs) =
     take (at_start g - pos) (drop pos text) @ new_text g
       @ apply_replacements (at_end g) text gs"

text \<open>Every character of the span \<open>text[span_start:span_end]\<close> lies in one of the regions.\<close>

definition span_covered :: "string \<Rightarrow> replacement list \<Rightarrow> recognizer_result \<Rightarrow> bool" where
  "span_covered text gs r \<longleftrightarrow>
     list_all (\<lambda>i. list_ex (\<lambda>g. at_start g \<le> i \<and> i < at_end g) gs)
       [span_start r ..< min (span_end r) (length text)]"

text \<open>The span and the region have a character in common.\<close>

definition overlaps :: "recognizer_result \<Rightarrow> replacement \<Rightarrow> bool" where
  "overlaps r g \<longleftrightarrow> max (span_start r) (at_start g) < min (span_end r) (at_end g)"

text \<open>
  The regions \<open>gs\<close> redact the spans \<open>rs\<close> of the text with the values \<open>f\<close> gives for the
  entity types: they are well formed, they cover every span, and each carries the value
  of a span it overlaps.
\<close>

definition redaction_of ::
  "string \<Rightarrow> recognizer_result list \<Rightarrow> (string \<Rightarrow> string) \<Rightarrow> replacement list \<Rightarrow> bool" where
  "redaction_of text rs f gs \<longleftrightarrow>
     regions_ok 0 text gs
     \<and> list_all (span_covered text gs) rs
     \<and> list_all (\<lambda>g. list_ex (\<lambda>r. overlaps r g \<and> new_text g = f (entity_type r)) rs) gs"


text \<open>\<open>isinstance(text, str)\<close>.\<close>

fun isinstance_str :: "pyval \<Rightarrow> bool" where
  "isinstance_str (VStr s) = True"
| "isinstance_str v = False"

definition initial_world :: world where
  "initial_world = \<lparr>stdout = [], engine_calls = [], written = Map.empty\<rparr>"

text \<open>
  An anonymizer that does what the contract says, to have one at hand. It takes spans
  that come in ascending order, none empty, none overlapping another, all inside the
  text, and makes each of them a region; any other input it refuses with an exception.
\<close>

fun spans_ok :: "nat \<Rightarrow> string \<Rightarrow> recognizer_result list \<Rightarrow> bool" where
  "spans_ok pos text [] = True"
| "spans_ok pos text (r # rs) =
     (pos \<le> span_start r \<and> span_start r < span_end r \<and> span_end r \<le> length text
      \<and> spans_ok (span_end r) text rs)"

definition region_of :: "(string \<Rightarrow> string) \<Rightarrow> recognizer_result \<Rightarrow> replacement" where
  "region_of f r = \<lparr>at_start = span_start r, at_end = span_end r, new_text = f (entity_type r)\<rparr>"

definition reference_anonymizer :: anonymizer where
  "reference_anonymizer text rs ops =
     (case text of
        VStr s \<Rightarrow>
          if spans_ok 0 s rs
          then Inr \<lparr>result_text = apply_replacements 0 s (map (region_of (supplied_value ops)) rs)\<rparr>
          else Inl (Exception ''Invalid analyzer results'')
      | _ \<Rightarrow> Inl (Exception ''text is not a string''))"

text \<open>
  The value \<open>anonymize_text\<close> returns for a text, or the exception it lets out. It does
  not depend on the outside world.
\<close>

definition anonymized_value :: "pyval \<Rightarrow> analyzer \<Rightarrow> anonymizer \<Rightarrow> exn + pyval" where
  "anonymized_value text analyzer anonymizer =
     fst (anonymize_text text analyzer anonymizer initial_world)"

text \<open>
  The row a file contributes to the output: none when reading or parsing it raises, none
  when its final text is blank, and otherwise its sender with its final text, which is
  the anonymized cleaned body.
\<close>

definition expected_row :: "env \<Rightarrow> analyzer \<Rightarrow> anonymizer \<Rightarrow> string \<Rightarrow> out_row option" where
  "expected_row e analyzer anonymizer file_path =
     (case parse_file e file_path of
        Inl x \<Rightarrow> None
      | Inr row \<Rightarrow>
          (case anonymized_value (VStr (clean_text (VStr (body row)))) analyzer anonymizer of
             Inl x \<Rightarrow> None
           | Inr t \<Rightarrow>
               if text_not_blank t then Some \<lparr>out_sender = sender row, out_text = t\<rparr>
               else None))"

section \<open>An example run\<close>

text \<open>
  Three files: the first holds the body \<open>Hi Bob\<close>, the second cannot be read, the third
  holds only a quoted line. The analyzer finds a person at \<open>[3, 6)\<close> in every text.
\<close>

definition example_env :: env where
  "example_env =
     \<lparr>all_files = [''maildir/1'', ''maildir/2'', ''maildir/3''],
      read_file = (\<lambda>file_path. if file_path = ''maildir/2''
                                then Inl (Exception ''Permission denied'')
                                else Inr file_path),
      message_from_string = (\<lambda>file_content.
        Inr \<lparr>is_multipart = False, walk = [],
             own_payload = Some (if file_content = ''maildir/1''
                                 then [0x48, 0x69, 0x20, 0x42, 0x6F, 0x62]
                                 else [0x3E, 0x20, 0x68, 0x69]),
             header_from = Some ''ann@enron.com''\<rparr>)\<rparr>"

definition example_analyzer :: analyzer where
  "example_analyzer text = Inr [\<lparr>entity_type = ''PERSON'', span_start = 3, span_end = 6\<rparr>]"

section \<open>Matching and substitution\<close>

lemma lower_newline: "lower p = newline \<longleftrightarrow> p = newline"
  unfolding lower_def newline_def Let_def
  by (cases p) (auto simp: char_of_def)

lemma lower_of_newline: "lower newline = newline"
  by (simp add: lower_newline)

lemma char_matches_newline: "char_matches ic p newline \<longleftrightarrow> p = newline"
  using lower_newline [of p] by (auto simp: char_matches_def lower_of_newline)

lemma match_here_append: "match_here ic lit xs \<Longrightarrow> match_here ic lit (xs @ ys)"
proof (induction lit arbitrary: xs)
  case Nil
  then show ?case by simp
next
  case (Cons p ps)
  then show ?case by (cases xs) auto
qed

lemma match_here_before_newline:
  "newline \<notin> set lit \<Longrightarrow> match_here ic lit (xs @ newline # ys) \<Longrightarrow> match_here ic lit xs"
proof (induction lit arbitrary: xs)
  case Nil
  then show ?case by simp
next
  case (Cons p ps)
  then show ?case by (cases xs) (auto simp: char_matches_newline)
qed

lemma occurs_Nil_lit: "occurs ic [] s"
  by (cases s) simp_all

lemma occurs_append_left: "occurs ic lit xs \<Longrightarrow> occurs ic lit (xs @ ys)"
proof (induction xs)
  case Nil
  then have "lit = []" by (cases lit) simp_all
  then show ?case by (simp add: occurs_Nil_lit)
next
  case (Cons x xs)
  then show ?case using match_here_append [of ic lit "x # xs" ys] by auto
qed

lemma occurs_append_right: "occurs ic lit ys \<Longrightarrow> occurs ic lit (xs @ ys)"
  by (induction xs) auto

lemma occurs_drop: "occurs ic lit (drop n xs) \<Longrightarrow> occurs ic lit xs"
  using occurs_append_right [of ic lit "drop n xs" "take n xs"] by simp

lemma occurs_dropWhile: "occurs ic lit (dropWhile P xs) \<Longrightarrow> occurs ic lit xs"
  using occurs_append_right [of ic lit "dropWhile P xs" "takeWhile P xs"] by simp

lemma occurs_across_newline:
  assumes "newline \<notin> set lit" "lit \<noteq> []"
  shows "occurs ic lit (xs @ newline # ys) \<Longrightarrow> occurs ic lit xs \<or> occurs ic lit ys"
proof (induction xs)
  case Nil
  from assms obtain p ps where "lit = p # ps" "p \<noteq> newline" by (cases lit) auto
  with Nil show ?case by (auto simp: char_matches_newline)
next
  case (Cons x xs)
  then show ?case
    using match_here_before_newline [OF assms(1), of ic "x # xs" ys] by auto
qed

lemma re_sub_absent: "\<not> occurs ic lit s \<Longrightarrow> re_sub dotall ic lit s = s"
  by (induction s) auto

lemma re_sub_at_newline:
  assumes "newline \<notin> set lit" "lit \<noteq> []"
  shows "re_sub dotall ic lit (newline # cs) = newline # re_sub dotall ic lit cs"
proof -
  from assms obtain p ps where "lit = p # ps" "p \<noteq> newline" by (cases lit) auto
  then show ?thesis by (simp add: char_matches_newline)
qed

lemma dropWhile_to_newline:
  "dropWhile (\<lambda>x. x \<noteq> newline) xs = [] \<or>
   (\<exists>ys. dropWhile (\<lambda>x. x \<noteq> newline) xs = newline # ys)"
proof (cases "dropWhile (\<lambda>x. x \<noteq> newline) xs")
  case Nil
  then show ?thesis by simp
next
  case (Cons y ys)
  then have "\<not> (y \<noteq> newline)" using hd_dropWhile [of "\<lambda>x. x \<noteq> newline" xs] by auto
  with Cons show ?thesis by simp
qed

lemma re_sub_after_match:
  assumes "newline \<notin> set lit" "lit \<noteq> []" "match_here ic lit (c # cs)"
  shows "re_sub dotall ic lit (c # cs) = [] \<or>
         (\<exists>ys. re_sub dotall ic lit (c # cs) = newline # ys)"
proof (cases dotall)
  case True
  with assms(3) show ?thesis by simp
next
  case False
  define d where "d = dropWhile (\<lambda>x. x \<noteq> newline) (drop (length lit - 1) cs)"
  have eq: "re_sub dotall ic lit (c # cs) = re_sub dotall ic lit d"
    using False assms(3) by (simp add: d_def)
  have "d = [] \<or> (\<exists>ys. d = newline # ys)"
    unfolding d_def by (rule dropWhile_to_newline)
  then show ?thesis
  proof
    assume "d = []"
    with eq show ?thesis by simp
  next
    assume "\<exists>ys. d = newline # ys"
    then obtain ys where "d = newline # ys" ..
    with eq re_sub_at_newline [OF assms(1,2), of dotall ic ys] show ?thesis by simp
  qed
qed

lemma match_here_re_sub:
  assumes "newline \<notin> set lit'" "lit' \<noteq> []"
  shows "newline \<notin> set lit \<Longrightarrow> match_here ic lit (re_sub dotall ic' lit' s)
           \<Longrightarrow> match_here ic lit s"
proof (induction s arbitrary: lit)
  case Nil
  then show ?case by simp
next
  case (Cons c cs)
  show ?case
  proof (cases lit)
    case Nil
    then show ?thesis by simp
  next
    case lit: (Cons p ps)
    show ?thesis
    proof (cases "match_here ic' lit' (c # cs)")
      case False
      with Cons lit show ?thesis by auto
    next
      case True
      from re_sub_after_match [OF assms True, of dotall] Cons.prems lit
      show ?thesis by (auto simp: char_matches_newline)
    qed
  qed
qed

lemma re_sub_keeps:
  "newline \<notin> set lit' \<Longrightarrow> lit' \<noteq> [] \<Longrightarrow> newline \<notin> set lit \<Longrightarrow> \<not> occurs ic lit s
     \<Longrightarrow> \<not> occurs ic lit (re_sub dotall ic' lit' s)"
proof (induction dotall ic' lit' s rule: re_sub.induct)
  case (1 dotall ic' lit')
  then show ?case by simp
next
  case (2 dotall ic' lit' c cs)
  have ne: "lit \<noteq> []" using "2.prems" by (auto simp: occurs_Nil_lit)
  have m: "\<not> match_here ic lit (c # cs)" and o: "\<not> occurs ic lit cs"
    using "2.prems" by simp_all
  show ?case
  proof (cases "match_here ic' lit' (c # cs)")
    case True
    show ?thesis
    proof (cases dotall)
      case True
      with \<open>match_here ic' lit' (c # cs)\<close> ne show ?thesis by (cases lit) auto
    next
      case False
      define d where "d = dropWhile (\<lambda>x. x \<noteq> newline) (drop (length lit' - 1) cs)"
      have "\<not> occurs ic lit d"
        unfolding d_def using o occurs_dropWhile occurs_drop by blast
      then have "\<not> occurs ic lit (re_sub dotall ic' lit' d)"
        using "2.IH"(1) [OF True False] "2.prems" by (simp add: d_def)
      with True False show ?thesis by (simp add: d_def)
    qed
  next
    case False
    obtain p ps where lit: "lit = p # ps" using ne by (cases lit) auto
    have "\<not> match_here ic lit (c # re_sub dotall ic' lit' cs)"
    proof
      assume a: "match_here ic lit (c # re_sub dotall ic' lit' cs)"
      then have "match_here ic ps (re_sub dotall ic' lit' cs)" using lit by simp
      moreover have "newline \<notin> set ps" using lit "2.prems" by simp
      ultimately have "match_here ic ps cs"
        using match_here_re_sub [of lit' ps ic dotall ic' cs] "2.prems" by simp
      with a lit m show False by simp
    qed
    moreover have "\<not> occurs ic lit (re_sub dotall ic' lit' cs)"
      using "2.IH"(2) [OF False] "2.prems" o by simp
    ultimately show ?thesis using False by simp
  qed
qed

lemma re_sub_removes:
  "newline \<notin> set lit \<Longrightarrow> lit \<noteq> [] \<Longrightarrow> \<not> occurs ic lit (re_sub dotall ic lit s)"
proof (induction dotall ic lit s rule: re_sub.induct)
  case (1 dotall ic lit)
  then show ?case by (cases lit) simp_all
next
  case (2 dotall ic lit c cs)
  obtain p ps where lit: "lit = p # ps" using "2.prems" by (cases lit) auto
  show ?case
  proof (cases "match_here ic lit (c # cs)")
    case True
    show ?thesis
    proof (cases dotall)
      case True
      with \<open>match_here ic lit (c # cs)\<close> lit show ?thesis by simp
    next
      case False
      define d where "d = dropWhile (\<lambda>x. x \<noteq> newline) (drop (length lit - 1) cs)"
      have "\<not> occurs ic lit (re_sub dotall ic lit d)"
        using "2.IH"(1) [OF True False] "2.prems" by (simp add: d_def)
      with True False show ?thesis by (simp add: d_def)
    qed
  next
    case False
    have "\<not> match_here ic lit (c # re_sub dotall ic lit cs)"
    proof
      assume a: "match_here ic lit (c # re_sub dotall ic lit cs)"
      then have "match_here ic ps (re_sub dotall ic lit cs)" using lit by simp
      moreover have "newline \<notin> set ps" using lit "2.prems" by simp
      ultimately have "match_here ic ps cs"
        using match_here_re_sub [of lit ps ic dotall ic cs] "2.prems" by simp
      with a lit False show False by simp
    qed
    moreover have "\<not> occurs ic lit (re_sub dotall ic lit cs)"
      using "2.IH"(2) [OF False] "2.prems" by simp
    ultimately show ?thesis using False by simp
  qed
qed

section \<open>Whitespace and lines\<close>

lemma strip_empty_iff: "strip s = [] \<longleftrightarrow> (\<forall>c \<in> set s. isspace c)"
proof
  assume e: "strip s = []"
  then have "\<forall>c \<in> set (lstrip s). isspace c"
    by (simp add: strip_def rstrip_def)
  moreover have "s = takeWhile isspace s @ lstrip s" by (simp add: lstrip_def)
  ultimately show "\<forall>c \<in> set s. isspace c"
    by (metis Un_iff set_append set_takeWhileD)
next
  assume "\<forall>c \<in> set s. isspace c"
  then have "lstrip s = []" by (simp add: lstrip_def)
  then show "strip s = []" by (simp add: strip_def rstrip_def)
qed

lemma rstrip_prefix: "s = rstrip s @ rev (takeWhile isspace (rev s))"
proof -
  have "rev (takeWhile isspace (rev s) @ dropWhile isspace (rev s)) = s"
    by (simp only: takeWhile_dropWhile_id rev_rev_ident)
  then show ?thesis by (simp only: rstrip_def rev_append)
qed

lemma stripped_strip: "stripped (strip s)"
proof (cases "strip s = []")
  case True
  then show ?thesis by (simp add: stripped_def)
next
  case False
  define x where "x = lstrip s"
  define r where "r = rstrip x"
  have r: "r = strip s" by (simp add: r_def x_def strip_def)
  with False have rne: "r \<noteq> []" by simp
  have xr: "x = r @ rev (takeWhile isspace (rev x))"
    unfolding r_def by (rule rstrip_prefix)
  with rne have xne: "x \<noteq> []" by auto
  have "\<not> isspace (hd x)"
    using xne hd_dropWhile [of isspace s] by (simp add: x_def lstrip_def)
  moreover have "hd x = hd r" using xr rne by (metis hd_append2)
  moreover have "\<not> isspace (last r)"
  proof -
    have "rev r = dropWhile isspace (rev x)" by (simp add: r_def rstrip_def)
    moreover have "rev r \<noteq> []" using rne by simp
    ultimately have "\<not> isspace (hd (rev r))"
      using hd_dropWhile [of isspace "rev x"] by simp
    then show ?thesis using rne by (simp add: hd_rev)
  qed
  ultimately show ?thesis using r by (simp add: stripped_def)
qed

lemma strip_stripped: "stripped s \<Longrightarrow> strip s = s"
proof (cases s rule: rev_cases)
  case Nil
  then show ?thesis by (simp add: strip_def lstrip_def rstrip_def)
next
  case (snoc ys y)
  assume "stripped s"
  with snoc have h: "\<not> isspace (hd s)" and l: "\<not> isspace y" by (simp_all add: stripped_def)
  have "lstrip s = s" using h by (cases s) (simp_all add: lstrip_def)
  moreover have "rstrip s = s" using l snoc by (simp add: rstrip_def)
  ultimately show ?thesis by (simp add: strip_def)
qed

lemma strip_idem: "strip (strip s) = strip s"
  by (rule strip_stripped) (rule stripped_strip)

lemma split_nl_not_Nil: "split_nl s \<noteq> []"
  by (induction s) (auto split: list.splits)

lemma split_nl_no_newline: "l \<in> set (split_nl s) \<Longrightarrow> newline \<notin> set l"
  by (induction s arbitrary: l) (auto split: list.splits if_splits)

lemma join_nl_Cons: "ls \<noteq> [] \<Longrightarrow> join_nl (l # ls) = l @ newline # join_nl ls"
  by (cases ls) simp_all

lemma join_nl_Cons_Cons: "join_nl ((c # l) # ls) = c # join_nl (l # ls)"
  by (cases ls) simp_all

lemma join_split: "join_nl (split_nl s) = s"
proof (induction s)
  case Nil
  then show ?case by simp
next
  case (Cons c cs)
  show ?case
  proof (cases "c = newline")
    case True
    with Cons show ?thesis by (simp add: join_nl_Cons split_nl_not_Nil)
  next
    case False
    obtain l ls where "split_nl cs = l # ls"
      using split_nl_not_Nil [of cs] by (cases "split_nl cs") auto
    with Cons False show ?thesis by (simp add: join_nl_Cons_Cons)
  qed
qed

lemma split_nl_line: "newline \<notin> set l \<Longrightarrow> split_nl l = [l]"
  by (induction l) auto

lemma split_nl_append_newline:
  "newline \<notin> set l \<Longrightarrow> split_nl (l @ newline # rest) = l # split_nl rest"
  by (induction l) auto

lemma split_join:
  "ls \<noteq> [] \<Longrightarrow> \<forall>l \<in> set ls. newline \<notin> set l \<Longrightarrow> split_nl (join_nl ls) = ls"
proof (induction ls rule: join_nl.induct)
  case 1
  then show ?case by simp
next
  case (2 l)
  then show ?case by (simp add: split_nl_line)
next
  case (3 l v va)
  then show ?case by (simp add: split_nl_append_newline)
qed

lemma split_nl_snoc:
  "split_nl (xs @ [c]) =
     (if c = newline then split_nl xs @ [[]]
      else butlast (split_nl xs) @ [last (split_nl xs) @ [c]])"
proof (induction xs)
  case Nil
  then show ?case by simp
next
  case (Cons x xs)
  obtain l ls where s: "split_nl xs = l # ls"
    using split_nl_not_Nil [of xs] by (cases "split_nl xs") auto
  obtain l' ls' where s': "split_nl (xs @ [c]) = l' # ls'"
    using split_nl_not_Nil [of "xs @ [c]"] by (cases "split_nl (xs @ [c])") auto
  show ?case
  proof (cases "c = newline")
    case True
    with Cons s show ?thesis by auto
  next
    case False
    with Cons s show ?thesis by (cases ls) auto
  qed
qed

lemma split_nl_rev: "split_nl (rev s) = rev (map rev (split_nl s))"
proof (induction s)
  case Nil
  then show ?case by simp
next
  case (Cons c cs)
  obtain l ls where s: "split_nl cs = l # ls"
    using split_nl_not_Nil [of cs] by (cases "split_nl cs") auto
  with Cons show ?case by (simp add: split_nl_snoc)
qed

lemma all_lines_nonblank_rev: "all_lines_nonblank (rev s) \<longleftrightarrow> all_lines_nonblank s"
  by (simp add: all_lines_nonblank_def split_nl_rev strip_empty_iff)

lemma all_lines_nonblank_lstrip: "all_lines_nonblank s \<Longrightarrow> all_lines_nonblank (lstrip s)"
proof (induction s)
  case Nil
  then show ?case by (simp add: lstrip_def)
next
  case (Cons c cs)
  show ?case
  proof (cases "isspace c")
    case False
    with Cons.prems show ?thesis by (simp add: lstrip_def)
  next
    case True
    obtain l ls where s: "split_nl cs = l # ls"
      using split_nl_not_Nil [of cs] by (cases "split_nl cs") auto
    have "c \<noteq> newline"
    proof
      assume "c = newline"
      with Cons.prems show False
        by (simp add: all_lines_nonblank_def strip_empty_iff)
    qed
    with Cons.prems s True have "all_lines_nonblank cs"
      by (simp add: all_lines_nonblank_def strip_empty_iff)
    then have "all_lines_nonblank (lstrip cs)" by (rule Cons.IH)
    with True show ?thesis by (simp add: lstrip_def)
  qed
qed

lemma all_lines_nonblank_rstrip: "all_lines_nonblank s \<Longrightarrow> all_lines_nonblank (rstrip s)"
proof -
  assume "all_lines_nonblank s"
  then have "all_lines_nonblank (rev s)" by (simp add: all_lines_nonblank_rev)
  then have "all_lines_nonblank (lstrip (rev s))" by (rule all_lines_nonblank_lstrip)
  then have "all_lines_nonblank (rev (lstrip (rev s)))" by (simp add: all_lines_nonblank_rev)
  then show ?thesis by (simp add: rstrip_def lstrip_def)
qed

lemma all_lines_nonblank_strip: "all_lines_nonblank s \<Longrightarrow> all_lines_nonblank (strip s)"
  by (simp add: strip_def all_lines_nonblank_lstrip all_lines_nonblank_rstrip)

lemma drop_blank_lines_fixed: "all_lines_nonblank s \<Longrightarrow> drop_blank_lines s = s"
  by (simp add: drop_blank_lines_def all_lines_nonblank_def join_split)

lemma drop_blank_lines_Nil: "drop_blank_lines [] = []"
  by (simp add: drop_blank_lines_def strip_empty_iff)

lemma drop_blank_lines_result:
  "drop_blank_lines s = [] \<or> all_lines_nonblank (drop_blank_lines s)"
proof (cases "filter (\<lambda>line. strip line \<noteq> []) (split_nl s) = []")
  case True
  then show ?thesis by (simp add: drop_blank_lines_def)
next
  case False
  define ls where "ls = filter (\<lambda>line. strip line \<noteq> []) (split_nl s)"
  have "\<forall>l \<in> set ls. newline \<notin> set l" using split_nl_no_newline by (auto simp: ls_def)
  with False have "split_nl (join_nl ls) = ls" by (simp add: split_join ls_def)
  moreover have "\<forall>l \<in> set ls. strip l \<noteq> []" by (simp add: ls_def)
  ultimately have "all_lines_nonblank (join_nl ls)" by (simp add: all_lines_nonblank_def)
  then show ?thesis by (simp add: drop_blank_lines_def ls_def)
qed

lemma strip_Nil: "strip [] = []"
  by (simp add: strip_def lstrip_def rstrip_def)

lemma clean_str_whitespace: "clean_str s = [] \<or> all_lines_nonblank (clean_str s)"
  using drop_blank_lines_result all_lines_nonblank_strip
  unfolding clean_str_def Let_def by (metis strip_Nil)

section \<open>Occurrences survive no step of the cleaning\<close>

lemma occurs_in_line:
  "l \<in> set ls \<Longrightarrow> occurs ic lit l \<Longrightarrow> occurs ic lit (join_nl ls)"
proof (induction ls rule: join_nl.induct)
  case 1
  then show ?case by simp
next
  case (2 l')
  then show ?case by simp
next
  case (3 l' v va)
  then show ?case
    using occurs_append_left [of ic lit l' "newline # join_nl (v # va)"]
      occurs_append_right [of ic lit "join_nl (v # va)" "l' @ [newline]"]
    by auto
qed

lemma occurs_join_nl:
  assumes "newline \<notin> set lit" "lit \<noteq> []"
  shows "occurs ic lit (join_nl ls) \<Longrightarrow> \<exists>l \<in> set ls. occurs ic lit l"
proof (induction ls rule: join_nl.induct)
  case 1
  with assms show ?case by (cases lit) simp_all
next
  case (2 l)
  then show ?case by simp
next
  case (3 l v va)
  then have "occurs ic lit l \<or> occurs ic lit (join_nl (v # va))"
    using occurs_across_newline [OF assms, of ic l "join_nl (v # va)"] by simp
  with 3 show ?case by auto
qed

lemma drop_blank_lines_keeps:
  assumes "newline \<notin> set lit" "lit \<noteq> []" "\<not> occurs ic lit s"
  shows "\<not> occurs ic lit (drop_blank_lines s)"
proof
  assume "occurs ic lit (drop_blank_lines s)"
  then obtain l where l: "l \<in> set (split_nl s)" "occurs ic lit l"
    using occurs_join_nl [OF assms(1,2), of ic "filter (\<lambda>line. strip line \<noteq> []) (split_nl s)"]
    by (auto simp: drop_blank_lines_def)
  then have "occurs ic lit (join_nl (split_nl s))" by (rule occurs_in_line)
  with assms(3) show False by (simp add: join_split)
qed

lemma strip_keeps: "\<not> occurs ic lit s \<Longrightarrow> \<not> occurs ic lit (strip s)"
proof
  assume a: "\<not> occurs ic lit s" and b: "occurs ic lit (strip s)"
  have "occurs ic lit (rstrip (lstrip s) @ rev (takeWhile isspace (rev (lstrip s))))"
    using b unfolding strip_def by (rule occurs_append_left)
  then have "occurs ic lit (lstrip s)" using rstrip_prefix [of "lstrip s"] by simp
  then have "occurs ic lit s" unfolding lstrip_def by (rule occurs_dropWhile)
  with a show False ..
qed

lemma occurs_char: "occurs ic [p] s \<longleftrightarrow> (\<exists>c \<in> set s. char_matches ic p c)"
  by (induction s) auto

lemma clean_str_absent:
  "\<not> occurs True ''-----Original Message-----'' (clean_str s)"
  "\<not> occurs False ''From:'' (clean_str s)"
  "\<not> occurs False ''To:'' (clean_str s)"
  "\<not> occurs False ''Sent:'' (clean_str s)"
  "\<not> occurs False ''Subject:'' (clean_str s)"
  "\<not> occurs False ''>'' (clean_str s)"
  "\<not> occurs True ''Sincerely'' (clean_str s)"
  "\<not> occurs True ''Best regards'' (clean_str s)"
  "\<not> occurs True ''Confidentiality Notice'' (clean_str s)"
  unfolding clean_str_def Let_def
  by (intro strip_keeps drop_blank_lines_keeps re_sub_removes re_sub_keeps;
      simp add: newline_def)+

lemma clean_str_idem: "clean_str (clean_str s) = clean_str s"
proof -
  define r where "r = clean_str s"
  have "drop_blank_lines r = r"
    using clean_str_whitespace [of s] drop_blank_lines_fixed [of r] drop_blank_lines_Nil
    by (auto simp: r_def)
  moreover have "strip r = r"
    unfolding r_def clean_str_def Let_def by (rule strip_idem)
  ultimately have "clean_str r = r"
    using clean_str_absent [of s]
    by (simp add: clean_str_def [of r] re_sub_absent r_def [symmetric])
  then show ?thesis by (simp add: r_def)
qed

section \<open>Properties of \<open>clean_text\<close>\<close>

text \<open>
  C8: \<open>clean_text\<close> returns the empty string, and does not raise, for every input that
  is not a string, such as \<open>None\<close> or a float.
\<close>

theorem clean_text_not_a_string: "\<not> isinstance_str v \<Longrightarrow> clean_text v = []"
  by (cases v) simp_all

theorem clean_text_not_a_string_witness:
  "\<not> isinstance_str VNone \<and> clean_text VNone = []
   \<and> \<not> isinstance_str (VFloat 2.5) \<and> clean_text (VFloat 2.5) = []"
  using clean_text_not_a_string [of VNone] clean_text_not_a_string [of "VFloat 2.5"]
  by simp

text \<open>
  C3: \<open>clean_text\<close> is idempotent: cleaning the result of a cleaning gives that result
  again, so a text in the image of \<open>clean_text\<close> is returned unchanged.
\<close>

theorem clean_text_idempotent: "clean_text (VStr (clean_text v)) = clean_text v"
proof (cases v)
  case (VStr s)
  then show ?thesis by (simp add: clean_str_idem)
next
  case VNone
  have "clean_str [] = []" by code_simp
  with VNone show ?thesis by simp
next
  case (VInt i)
  have "clean_str [] = []" by code_simp
  with VInt show ?thesis by simp
next
  case (VFloat x)
  have "clean_str [] = []" by code_simp
  with VFloat show ?thesis by simp
qed

text \<open>
  C4: the output of \<open>clean_text\<close> holds none of the boilerplate patterns: the literals
  \<open>From:\<close>, \<open>To:\<close>, \<open>Sent:\<close> and \<open>Subject:\<close> occur nowhere in it (so in none of its
  lines), no character \<open>>\<close> is left, and \<open>-----Original Message-----\<close>, \<open>Sincerely\<close>,
  \<open>Best regards\<close> and \<open>Confidentiality Notice\<close> occur nowhere in it in any mix of upper
  and lower case.
\<close>

theorem clean_text_no_boilerplate:
  "\<not> occurs False ''From:'' (clean_text v)
   \<and> \<not> occurs False ''To:'' (clean_text v)
   \<and> \<not> occurs False ''Sent:'' (clean_text v)
   \<and> \<not> occurs False ''Subject:'' (clean_text v)
   \<and> CHR ''>'' \<notin> set (clean_text v)
   \<and> \<not> occurs True ''-----Original Message-----'' (clean_text v)
   \<and> \<not> occurs True ''Sincerely'' (clean_text v)
   \<and> \<not> occurs True ''Best regards'' (clean_text v)
   \<and> \<not> occurs True ''Confidentiality Notice'' (clean_text v)"
proof (cases v)
  case (VStr s)
  have "CHR ''>'' \<notin> set (clean_str s)"
    using clean_str_absent(6) [of s] by (simp add: occurs_char char_matches_def)
  with VStr show ?thesis by (simp add: clean_str_absent)
qed simp_all

text \<open>
  C10: the output of \<open>clean_text\<close> is normalized in its whitespace: it equals its own
  \<open>strip()\<close>, and none of its lines is empty or made of whitespace only (the empty output
  has no line).
\<close>

theorem clean_text_whitespace_normalized:
  "strip (clean_text v) = clean_text v
   \<and> (clean_text v \<noteq> [] \<longrightarrow> (\<forall>line \<in> set (split_nl (clean_text v)). strip line \<noteq> []))"
proof (cases v)
  case (VStr s)
  have "strip (clean_str s) = clean_str s"
    unfolding clean_str_def Let_def by (rule strip_idem)
  with VStr clean_str_whitespace [of s] show ?thesis
    by (auto simp: all_lines_nonblank_def)
qed (simp_all add: strip_Nil)

theorem clean_text_whitespace_normalized_witness:
  "clean_text (VStr (''  Hi Bob,'' @ [newline] @ '' '' @ [newline] @ ''see you  '')) \<noteq> []
   \<and> strip (clean_text (VStr (''  Hi Bob,'' @ [newline] @ '' '' @ [newline] @ ''see you  '')))
       = clean_text (VStr (''  Hi Bob,'' @ [newline] @ '' '' @ [newline] @ ''see you  ''))
   \<and> list_all (\<lambda>line. strip line \<noteq> [])
        (split_nl (clean_text (VStr (''  Hi Bob,'' @ [newline] @ '' '' @ [newline] @ ''see you  ''))))"
proof -
  have "clean_text (VStr (''  Hi Bob,'' @ [newline] @ '' '' @ [newline] @ ''see you  ''))
          = ''Hi Bob,'' @ [newline] @ ''see you''"
    by code_simp
  then show ?thesis
    using clean_text_whitespace_normalized
      [of "VStr (''  Hi Bob,'' @ [newline] @ '' '' @ [newline] @ ''see you  '')"]
    by (simp add: list_all_iff)
qed

section \<open>Properties of \<open>anonymize_text\<close>\<close>



text \<open>
  C9: for a falsy text (the empty string or \<open>None\<close>) \<open>anonymize_text\<close> returns the empty
  string at once: whatever the analyzer and the anonymizer are, neither is called, no
  exception comes out and nothing is printed, the outside world being left as it was.
\<close>

theorem anonymize_text_falsy:
  "\<not> truthy text \<Longrightarrow> anonymize_text text analyzer anonymizer w = (Inr (VStr []), w)"
  by (simp add: anonymize_text_def)

theorem anonymize_text_falsy_witness:
  "\<not> truthy VNone \<and> \<not> truthy (VStr [])
   \<and> anonymize_text VNone (\<lambda>t. Inl (Exception ''down'')) (\<lambda>t rs ops. Inl (Exception ''down''))
        initial_world = (Inr (VStr []), initial_world)
   \<and> anonymize_text (VStr []) (\<lambda>t. Inl (Exception ''down'')) (\<lambda>t rs ops. Inl (Exception ''down''))
        initial_world = (Inr (VStr []), initial_world)"
  using anonymize_text_falsy [of VNone "\<lambda>t. Inl (Exception ''down'')"
      "\<lambda>t rs ops. Inl (Exception ''down'')" initial_world]
    anonymize_text_falsy [of "VStr []" "\<lambda>t. Inl (Exception ''down'')"
      "\<lambda>t rs ops. Inl (Exception ''down'')" initial_world]
  by simp

text \<open>
  C1: when the analyzer or the anonymizer raises an exception (an instance of
  \<open>Exception\<close>) on a text, \<open>anonymize_text\<close> does not let it out: it prints one line to
  standard output, the log message with the text of the exception, and returns the text
  it was given, unchanged.
\<close>

theorem anonymize_text_failure_caught:
  assumes "truthy text"
    and "analyzer text = Inl (Exception msg)
         \<or> (\<exists>rs. analyzer text = Inr rs \<and> anonymizer text rs operators = Inl (Exception msg))"
  shows "fst (anonymize_text text analyzer anonymizer w) = Inr text
         \<and> stdout (snd (anonymize_text text analyzer anonymizer w))
             = stdout w @ [''Anonymization failed for a text snippet: '' @ msg]"
  using assms
  by (auto simp: anonymize_text_def Let_def print_def record_call_def)

theorem anonymize_text_failure_caught_witness:
  "truthy (VStr ''call Bob'')
   \<and> (\<lambda>t. Inr []) (VStr ''call Bob'') = (Inr [] :: exn + recognizer_result list)
   \<and> (\<lambda>t rs ops. Inl (Exception ''boom'')) (VStr ''call Bob'') [] operators
       = (Inl (Exception ''boom'') :: exn + engine_result)
   \<and> fst (anonymize_text (VStr ''call Bob'') (\<lambda>t. Inr []) (\<lambda>t rs ops. Inl (Exception ''boom''))
            initial_world) = Inr (VStr ''call Bob'')
   \<and> stdout (snd (anonymize_text (VStr ''call Bob'') (\<lambda>t. Inr [])
                     (\<lambda>t rs ops. Inl (Exception ''boom'')) initial_world))
       = [''Anonymization failed for a text snippet: boom'']"
  using anonymize_text_failure_caught [of "VStr ''call Bob''" "\<lambda>t. Inr []" "''boom''"
      "\<lambda>t rs ops. Inl (Exception ''boom'')" initial_world]
  by (simp add: initial_world_def)

lemma anonymize_text_base_exception:
  "truthy text \<Longrightarrow> analyzer text = Inl (BaseException msg)
     \<Longrightarrow> fst (anonymize_text text analyzer anonymizer w) = Inl (BaseException msg)"
  by (simp add: anonymize_text_def Let_def)







text \<open>
  The contract leaves room for an engine that merges: two names next to each other may
  give way to one token.
\<close>

lemma redaction_admits_merging:
  "redaction_of ''John Smith called''
     [\<lparr>entity_type = ''PERSON'', span_start = 0, span_end = 4\<rparr>,
      \<lparr>entity_type = ''PERSON'', span_start = 5, span_end = 10\<rparr>]
     (supplied_value operators)
     [\<lparr>at_start = 0, at_end = 10, new_text = ''<REDACTED>''\<rparr>]"
  "apply_replacements 0 ''John Smith called''
     [\<lparr>at_start = 0, at_end = 10, new_text = ''<REDACTED>''\<rparr>] = ''<REDACTED> called''"
  by code_simp+

text \<open>Nor does it ask for the spans in order, or apart from each other.\<close>

lemma redaction_admits_any_order:
  "redaction_of ''Call Bob at 5551234''
     [\<lparr>entity_type = ''PHONE_NUMBER'', span_start = 12, span_end = 19\<rparr>,
      \<lparr>entity_type = ''PERSON'', span_start = 5, span_end = 8\<rparr>,
      \<lparr>entity_type = ''US_BANK_NUMBER'', span_start = 14, span_end = 19\<rparr>]
     (supplied_value operators)
     [\<lparr>at_start = 5, at_end = 8, new_text = ''<REDACTED>''\<rparr>,
      \<lparr>at_start = 12, at_end = 19, new_text = ''<REDACTED>''\<rparr>]"
  by code_simp


section \<open>Properties of \<open>main\<close>\<close>

lemma parse_emails_append:
  "parse_emails e (xs @ ys) data w =
     (case parse_emails e xs data w of
        (Inl x, w') \<Rightarrow> (Inl x, w')
      | (Inr data', w') \<Rightarrow> parse_emails e ys data' w')"
  by (induction xs arbitrary: data) (auto split: sum.splits exn.splits)

text \<open>
  C7: a file whose reading or parsing raises an exception (an instance of \<open>Exception\<close>)
  is skipped in silence: the loop goes on with the next file, and its outcome, the rows
  collected and the outside world with the lines printed, is the one it has without that
  file. So no row is added for the file, nothing is printed for it, and the run is not
  aborted by it.
\<close>

theorem parse_failure_skipped:
  assumes "parse_file e file_path = Inl (Exception msg)"
  shows "parse_emails e (file_path # rest) data w = parse_emails e rest data w
         \<and> parse_emails e (before @ file_path # rest) data w
             = parse_emails e (before @ rest) data w"
proof -
  have step: "\<And>d w'. parse_emails e (file_path # rest) d w' = parse_emails e rest d w'"
    using assms by simp
  have "parse_emails e (before @ file_path # rest) data w
          = parse_emails e (before @ rest) data w"
    by (simp only: parse_emails_append step)
  with step show ?thesis by simp
qed

lemma parse_emails_result:
  "parse_emails e fs data w = (Inr df, w')
     \<Longrightarrow> w' = w \<and> df = data @ List.map_filter
           (\<lambda>f. case parse_file e f of Inl x \<Rightarrow> None | Inr row \<Rightarrow> Some row) fs"
proof (induction fs arbitrary: data)
  case Nil
  then show ?case by simp
next
  case (Cons f fs)
  show ?case
  proof (cases "parse_file e f")
    case (Inr row)
    with Cons.prems have "parse_emails e fs (data @ [row]) w = (Inr df, w')" by simp
    from Cons.IH [OF this] Inr show ?thesis by simp
  next
    case (Inl x)
    with Cons.prems have "parse_emails e fs data w = (Inr df, w')"
      by (cases x) simp_all
    from Cons.IH [OF this] Inl show ?thesis by simp
  qed
qed

lemma fst_anonymize_text:
  "fst (anonymize_text text analyzer anonymizer w) = anonymized_value text analyzer anonymizer"
proof -
  have "\<And>x w w'. fst (anonymize_failed x text w) = fst (anonymize_failed x text w')"
  proof -
    fix x w w' show "fst (anonymize_failed x text w) = fst (anonymize_failed x text w')"
      by (cases x) simp_all
  qed
  then show ?thesis
    unfolding anonymized_value_def anonymize_text_def Let_def
    by (auto split: sum.splits)
qed

lemma anonymize_failed_value: "fst (anonymize_failed x text w) = Inr v \<Longrightarrow> v = text"
  by (cases x) simp_all

lemma anonymize_text_str:
  "anonymized_value (VStr t) analyzer anonymizer = Inr v \<Longrightarrow> \<exists>t'. v = VStr t'"
  unfolding anonymized_value_def anonymize_text_def Let_def
  by (auto split: sum.splits if_splits dest: anonymize_failed_value)

lemma anonymize_all_result:
  "anonymize_all ts analyzer anonymizer w = (Inr vs, w')
     \<Longrightarrow> list_all2 (\<lambda>t v. anonymized_value (VStr t) analyzer anonymizer = Inr v) ts vs"
proof (induction ts arbitrary: vs w w')
  case Nil
  then show ?case by simp
next
  case (Cons t ts)
  obtain r w1 where a: "anonymize_text (VStr t) analyzer anonymizer w = (r, w1)"
    by (cases "anonymize_text (VStr t) analyzer anonymizer w") auto
  with Cons.prems obtain v where r: "r = Inr v" by (cases r) auto
  obtain r2 w2 where b: "anonymize_all ts analyzer anonymizer w1 = (r2, w2)"
    by (cases "anonymize_all ts analyzer anonymizer w1") auto
  with Cons.prems a r obtain vs' where r2: "r2 = Inr vs'" by (cases r2) auto
  from Cons.prems a r b r2 have vs: "vs = v # vs'" by simp
  have "anonymized_value (VStr t) analyzer anonymizer = Inr v"
    using a r fst_anonymize_text [of "VStr t" analyzer anonymizer w] by simp
  moreover have "list_all2 (\<lambda>t v. anonymized_value (VStr t) analyzer anonymizer = Inr v) ts vs'"
    using Cons.IH b r2 by simp
  ultimately show ?case using vs by simp
qed

lemma written_print: "written (print s w) = written w"
  by (simp add: print_def)

lemma main_success:
  assumes "main e analyzer anonymizer w = (Inr u, w')"
  shows "\<exists>df vs w1 w2 w5 w6.
           parse_emails e (all_files e) [] w1 = (Inr df, w2) \<and> df \<noteq> []
           \<and> anonymize_all (map (\<lambda>row. clean_text (VStr (body row))) df) analyzer anonymizer w5
               = (Inr vs, w6)
           \<and> written w' output_filename
               = Some (filter (\<lambda>r. text_not_blank (out_text r))
                         (map (\<lambda>(row, t). \<lparr>out_sender = sender row, out_text = t\<rparr>) (zip df vs)))"
  using assms unfolding main_def Let_def
  by (fastforce split: prod.splits sum.splits if_splits simp: written_print)

lemma filter_zip_rows:
  "list_all2 (\<lambda>row v. g row = Inr v) (df :: email list) vs \<Longrightarrow>
   filter (\<lambda>r. text_not_blank (out_text r))
     (map (\<lambda>(row, t). \<lparr>out_sender = sender row, out_text = t\<rparr>) (zip df vs))
   = List.map_filter
       (\<lambda>row. case g row of
                 Inl x \<Rightarrow> None
               | Inr t \<Rightarrow> if text_not_blank t
                          then Some \<lparr>out_sender = sender row, out_text = t\<rparr> else None) df"
  by (induction df vs rule: list_all2_induct) simp_all

lemma map_filter_map_filter:
  "List.map_filter h (List.map_filter p fs)
     = List.map_filter (\<lambda>f. case p f of None \<Rightarrow> None | Some row \<Rightarrow> h row) fs"
  by (induction fs) (simp_all split: option.splits)

lemma main_rows:
  assumes "main e analyzer anonymizer w = (Inr u, w')"
  shows "written w' output_filename
           = Some (List.map_filter (expected_row e analyzer anonymizer) (all_files e))"
proof -
  from main_success [OF assms] obtain df vs w1 w2 w5 w6 where
    p: "parse_emails e (all_files e) [] w1 = (Inr df, w2)" and
    a: "anonymize_all (map (\<lambda>row. clean_text (VStr (body row))) df) analyzer anonymizer w5
          = (Inr vs, w6)" and
    wr: "written w' output_filename
           = Some (filter (\<lambda>r. text_not_blank (out_text r))
                     (map (\<lambda>(row, t). \<lparr>out_sender = sender row, out_text = t\<rparr>) (zip df vs)))"
    by blast
  define parsed where
    "parsed = (\<lambda>f. case parse_file e f of Inl x \<Rightarrow> None | Inr row \<Rightarrow> Some row)"
  define g where
    "g = (\<lambda>row :: email. anonymized_value (VStr (clean_text (VStr (body row)))) analyzer anonymizer)"
  have df: "df = List.map_filter parsed (all_files e)"
    using parse_emails_result [OF p] by (simp add: parsed_def)
  have "list_all2 (\<lambda>row v. g row = Inr v) df vs"
    using anonymize_all_result [OF a] by (simp add: list_all2_map1 g_def)
  then have "filter (\<lambda>r. text_not_blank (out_text r))
               (map (\<lambda>(row, t). \<lparr>out_sender = sender row, out_text = t\<rparr>) (zip df vs))
             = List.map_filter
                 (\<lambda>row. case g row of
                           Inl x \<Rightarrow> None
                         | Inr t \<Rightarrow> if text_not_blank t
                                    then Some \<lparr>out_sender = sender row, out_text = t\<rparr>
                                    else None) df"
    by (rule filter_zip_rows)
  also have "\<dots> = List.map_filter (expected_row e analyzer anonymizer) (all_files e)"
  proof -
    have "(\<lambda>f. case parsed f of
                 None \<Rightarrow> None
               | Some row \<Rightarrow>
                   (case g row of
                      Inl x \<Rightarrow> None
                    | Inr t \<Rightarrow> if text_not_blank t
                               then Some \<lparr>out_sender = sender row, out_text = t\<rparr> else None))
          = expected_row e analyzer anonymizer"
      by (rule ext) (simp add: expected_row_def parsed_def g_def split: sum.splits)
    then show ?thesis by (simp add: df map_filter_map_filter)
  qed
  finally show ?thesis using wr by simp
qed

lemma expected_row_text:
  "expected_row e analyzer anonymizer f = Some r
     \<Longrightarrow> \<exists>t. out_text r = VStr t \<and> strip t \<noteq> []"
proof -
  assume a: "expected_row e analyzer anonymizer f = Some r"
  then obtain t0 v where
    v: "anonymized_value (VStr t0) analyzer anonymizer = Inr v"
    and nb: "text_not_blank v" and r: "out_text r = v"
    unfolding expected_row_def
    by (fastforce split: sum.splits if_splits)
  from anonymize_text_str [OF v] obtain t where "v = VStr t" ..
  with nb r show ?thesis by simp
qed

text \<open>
  C5: when \<open>main\<close> completes, every row of the file it has written has a text that is a
  string and is not empty after stripping whitespace: rows with an empty or
  whitespace-only final text are not written.
\<close>

theorem written_rows_not_blank:
  assumes "main e analyzer anonymizer w = (Inr u, w')"
  shows "\<exists>rows. written w' output_filename = Some rows
           \<and> (\<forall>r \<in> set rows. \<exists>t. out_text r = VStr t \<and> strip t \<noteq> [])"
proof -
  have "\<forall>r \<in> set (List.map_filter (expected_row e analyzer anonymizer) (all_files e)).
          \<exists>t. out_text r = VStr t \<and> strip t \<noteq> []"
    using expected_row_text by (fastforce simp: List.map_filter_def)
  with main_rows [OF assms] show ?thesis by simp
qed

text \<open>
  C6: when \<open>main\<close> completes, the file it has written holds exactly one row for each
  input file that was read and parsed without an exception and whose final text, the
  anonymized cleaned body, is not blank, in the order of the files; so the number of rows
  is the number of such files.
\<close>

theorem written_row_count:
  assumes "main e analyzer anonymizer w = (Inr u, w')"
  shows "\<exists>rows. written w' output_filename = Some rows
           \<and> rows = List.map_filter (expected_row e analyzer anonymizer) (all_files e)
           \<and> length rows
               = length (filter (\<lambda>f. expected_row e analyzer anonymizer f \<noteq> None) (all_files e))"
  using main_rows [OF assms] by (simp add: List.map_filter_def)

lemma example_bytes:
  "decode_latin1 (Some [0x48, 0x69, 0x20, 0x42, 0x6F, 0x62]) = Inr ''Hi Bob''"
  "decode_latin1 (Some [0x3E, 0x20, 0x68, 0x69]) = Inr ''> hi''"
  by code_simp+

lemma example_parse_1:
  "parse_file example_env ''maildir/1'' = Inr \<lparr>sender = VStr ''ann@enron.com'', body = ''Hi Bob''\<rparr>"
  by (simp add: parse_file_def example_env_def get_body_def example_bytes del: decode_latin1.simps)

lemma example_parse_2:
  "parse_file example_env ''maildir/2'' = Inl (Exception ''Permission denied'')"
  by (simp add: parse_file_def example_env_def)

lemma example_parse_3:
  "parse_file example_env ''maildir/3'' = Inr \<lparr>sender = VStr ''ann@enron.com'', body = ''> hi''\<rparr>"
  by (simp add: parse_file_def example_env_def get_body_def example_bytes del: decode_latin1.simps)

lemma example_clean_1: "clean_str ''Hi Bob'' = ''Hi Bob''"
  by code_simp

lemma example_clean_3: "clean_str ''> hi'' = []"
  by code_simp

lemma example_run:
  "fst (main example_env example_analyzer reference_anonymizer initial_world) = Inr ()"
  "written (snd (main example_env example_analyzer reference_anonymizer initial_world))
     output_filename
   = Some [\<lparr>out_sender = VStr ''ann@enron.com'', out_text = VStr ''Hi <REDACTED>''\<rparr>]"
  by code_simp+

section \<open>The example run, checked\<close>

theorem parse_failure_skipped_witness:
  "parse_file example_env ''maildir/2'' = Inl (Exception ''Permission denied'')
   \<and> parse_emails example_env [''maildir/2'', ''maildir/3''] [] initial_world
       = parse_emails example_env [''maildir/3''] [] initial_world
   \<and> parse_emails example_env ([''maildir/1''] @ ''maildir/2'' # [''maildir/3'']) []
         initial_world
       = parse_emails example_env ([''maildir/1''] @ [''maildir/3'']) [] initial_world
   \<and> parse_emails example_env [''maildir/1'', ''maildir/2'', ''maildir/3''] [] initial_world
       = (Inr [\<lparr>sender = VStr ''ann@enron.com'', body = ''Hi Bob''\<rparr>,
               \<lparr>sender = VStr ''ann@enron.com'', body = ''> hi''\<rparr>], initial_world)"
  using parse_failure_skipped [OF example_parse_2, of "[''maildir/3'']" "[]" initial_world
      "[''maildir/1'']"]
  by (simp add: example_parse_1 example_parse_2 example_parse_3)

theorem written_rows_not_blank_witness:
  "fst (main example_env example_analyzer reference_anonymizer initial_world) = Inr ()
   \<and> (\<exists>rows. written (snd (main example_env example_analyzer reference_anonymizer
                              initial_world)) output_filename = Some rows
          \<and> rows \<noteq> []
          \<and> (\<forall>r \<in> set rows. \<exists>t. out_text r = VStr t \<and> strip t \<noteq> []))"
proof -
  have m: "main example_env example_analyzer reference_anonymizer initial_world
             = (Inr (), snd (main example_env example_analyzer reference_anonymizer
                               initial_world))"
    using example_run(1) by (simp add: prod_eq_iff)
  from written_rows_not_blank [OF m] example_run show ?thesis by auto
qed

theorem written_row_count_witness:
  "fst (main example_env example_analyzer reference_anonymizer initial_world) = Inr ()
   \<and> (\<exists>rows. written (snd (main example_env example_analyzer reference_anonymizer
                              initial_world)) output_filename = Some rows
          \<and> rows = List.map_filter (expected_row example_env example_analyzer
                                       reference_anonymizer) (all_files example_env)
          \<and> length rows = 1
          \<and> length (filter (\<lambda>f. expected_row example_env example_analyzer
                                   reference_anonymizer f \<noteq> None) (all_files example_env)) = 1)"
proof -
  have m: "main example_env example_analyzer reference_anonymizer initial_world
             = (Inr (), snd (main example_env example_analyzer reference_anonymizer
                               initial_world))"
    using example_run(1) by (simp add: prod_eq_iff)
  from written_row_count [OF m] obtain rows where
    w: "written (snd (main example_env example_analyzer reference_anonymizer initial_world))
          output_filename = Some rows"
    and r: "rows = List.map_filter (expected_row example_env example_analyzer
                                     reference_anonymizer) (all_files example_env)"
    and l: "length rows = length (filter (\<lambda>f. expected_row example_env example_analyzer
                                   reference_anonymizer f \<noteq> None) (all_files example_env))"
    by blast
  from w example_run(2) have "length rows = 1" by auto
  with w r l example_run(1) show ?thesis by simp
qed

text \<open>With no file parsed the table has no column \<open>body\<close> and the run ends in a \<open>KeyError\<close>.\<close>

lemma main_empty_table:
  "all_files e = [] \<Longrightarrow>
   fst (main e analyzer anonymizer w) = Inl (Exception (CHR 0x27 # ''body'' @ [CHR 0x27]))"
  by (simp add: main_def Let_def)

end
